theory Spec2Isabelle
  imports Main "HOL-Library.Word" "HOL-Library.Multiset" "HOL-Library.Product_Lexorder"
begin

section \<open>Window funnel aggregation state (be/src/exprs/agg/window_funnel.h)\<close>

subsection \<open>Data model\<close>

text \<open>
  Modelled from the spec: the timestamp type. \<open>TimeType::type\<close> comes from
  \<open>RunTimeTypeTraits\<close>, declared outside this file; the spec fixes it as a comparable 64-bit
  integer, which is the datetime instantiation (seconds). Step indices are \<open>uint8_t\<close>, the
  result is \<open>int32_t\<close>. Machine integers are words; signed values are read with \<open>sint\<close>,
  unsigned ones with \<open>unat\<close>.

  Modelled from the spec: the row type. \<open>DatumArray\<close> is declared outside this file; every
  element is written as an \<open>int64_t\<close> and read with \<open>get_int64\<close>, the spec's flat sequence
  of integers, so a row is a list of 64-bit words.
\<close>

type_synonym i64 = "64 word"
type_synonym u8 = "8 word"
type_synonym i32 = "32 word"

type_synonym TimestampEvent = "i64 \<times> u8"
type_synonym DatumArray = "i64 list"

text \<open>
  The field \<open>sorted\<close> of the source is called \<open>sorted_flag\<close> here, since \<open>sorted\<close> is the
  list predicate of HOL.
\<close>

record WindowFunnelState =
  events_list :: "TimestampEvent list"
  window_size :: i64
  events_size :: u8
  sorted_flag :: bool

text \<open>
  Reading a vector past its end is undefined in C++; the model makes it a failure value.
\<close>

datatype error = IndexOutOfRange

subsection \<open>The order on observations\<close>

text \<open>
  \<open>std::pair\<close>'s \<open>operator<\<close> is lexicographic: the signed timestamp first, the unsigned
  step index second. \<open>ComparePairFirst\<close> compares \<open>std::tie(lhs) < std::tie(rhs)\<close>, one-element
  tuples that hold the whole pair, so it is that same order and looks at both components.
\<close>

definition ComparePairFirst :: "TimestampEvent \<Rightarrow> TimestampEvent \<Rightarrow> bool" where
  "ComparePairFirst lhs rhs \<longleftrightarrow>
     sint (fst lhs) < sint (fst rhs) \<or>
     (\<not> sint (fst rhs) < sint (fst lhs) \<and> unat (snd lhs) < unat (snd rhs))"

text \<open>
  \<open>event_key\<close> maps an observation to its place in that order: pairs of \<open>int\<close> and \<open>nat\<close>,
  ordered lexicographically (lemma \<open>ComparePairFirst_event_key\<close> below).
\<close>

definition event_key :: "TimestampEvent \<Rightarrow> int \<times> nat" where
  "event_key e = (sint (fst e), unat (snd e))"

text \<open>
  \<open>std::stable_sort\<close> and \<open>std::sort\<close> over a range. Two observations that compare
  equivalent are equal (lemma \<open>sorted_events_unique\<close> below), so every sorting algorithm
  returns the same sequence and one model serves both.
\<close>

definition stable_sort :: "TimestampEvent list \<Rightarrow> TimestampEvent list" where
  "stable_sort xs = sort_key event_key xs"

definition std_sort :: "TimestampEvent list \<Rightarrow> TimestampEvent list" where
  "std_sort xs = sort_key event_key xs"

text \<open>
  \<open>std::inplace_merge(begin, middle, end)\<close> on the two runs \<open>[begin, middle)\<close> and
  \<open>[middle, end)\<close>: the stable merge, which takes from the second run only an element
  strictly less than the head of the first. Its precondition is that both runs are sorted.
\<close>

fun inplace_merge :: "TimestampEvent list \<Rightarrow> TimestampEvent list \<Rightarrow> TimestampEvent list" where
  "inplace_merge [] ys = ys"
| "inplace_merge xs [] = xs"
| "inplace_merge (x # xs) (y # ys) =
     (if event_key y < event_key x then y # inplace_merge (x # xs) ys
      else x # inplace_merge xs (y # ys))"

subsection \<open>update\<close>

definition update :: "i64 \<Rightarrow> u8 \<Rightarrow> WindowFunnelState \<Rightarrow> WindowFunnelState" where
  "update timestamp event_level s =
     (if length (events_list s) > 0 \<and> event_level = 0 then s
      else
        let sorted' =
              (if sorted_flag s \<and> length (events_list s) > 0 then
                 (if fst (last (events_list s)) = timestamp
                  then unat (snd (last (events_list s))) \<le> unat event_level
                  else sint (fst (last (events_list s))) \<le> sint timestamp)
               else sorted_flag s)
        in s\<lparr>events_list := events_list s @ [(timestamp, event_level)],
              sorted_flag := sorted'\<rparr>)"

subsection \<open>serialize_to_array_column\<close>

text \<open>
  The local \<open>DatumArray array\<close> that the function builds: the two header scalars, then
  timestamp and step index of every observation, each as a 64-bit integer.
\<close>

definition serialize_array :: "WindowFunnelState \<Rightarrow> DatumArray" where
  "serialize_array s =
     ucast (events_size s) # (if sorted_flag s then 1 else 0) #
     concat (map (\<lambda>e. [fst e, ucast (snd e)]) (events_list s))"

text \<open>The array column is the list of its rows; a state with no observation appends no row.\<close>

definition serialize_to_array_column ::
  "WindowFunnelState \<Rightarrow> DatumArray list \<Rightarrow> DatumArray list" where
  "serialize_to_array_column s array_column =
     (if events_list s \<noteq> [] then array_column @ [serialize_array s] else array_column)"

subsection \<open>deserialize_and_merge\<close>

text \<open>The loop \<open>for (i = 2; i < datum_array.size() - 1; i += 2)\<close> that fills \<open>other_list\<close>.\<close>

function other_list_loop ::
  "DatumArray \<Rightarrow> nat \<Rightarrow> TimestampEvent list \<Rightarrow> TimestampEvent list" where
  "other_list_loop datum_array i other_list =
     (if i < length datum_array - 1 then
        other_list_loop datum_array (i + 2)
          (other_list @ [(datum_array ! i, ucast (datum_array ! (i + 1)))])
      else other_list)"
  by pat_completeness auto
termination
  by (relation "measure (\<lambda>(datum_array, i, other_list). length datum_array - i)") auto

text \<open>
  The decoding part of \<open>deserialize_and_merge\<close>: the two header scalars
  \<open>events_size\<close> and \<open>other_sorted\<close>, then \<open>other_list\<close>. \<open>datum_array[1]\<close> is
  read without a check, so an array of one element is read past its end.
\<close>

definition deserialize :: "DatumArray \<Rightarrow> error + (u8 \<times> bool \<times> TimestampEvent list)" where
  "deserialize datum_array =
     (if length datum_array < 2 then Inl IndexOutOfRange
      else Inr ((ucast (datum_array ! 0) :: u8),
                (ucast (datum_array ! 1) :: u8) \<noteq> 0,
                other_list_loop datum_array 2 []))"

text \<open>
  The first argument is the window size read from the function context
  (\<open>ctx->get_constant_column(1)\<close>).
\<close>

definition deserialize_and_merge ::
  "i64 \<Rightarrow> WindowFunnelState \<Rightarrow> DatumArray \<Rightarrow> error + WindowFunnelState" where
  "deserialize_and_merge ctx_window s datum_array =
     (if length datum_array = 0 then Inr s
      else
        case deserialize datum_array of
          Inl err \<Rightarrow> Inl err
        | Inr (events_size', other_sorted, other_list) \<Rightarrow>
            let size = length (events_list s);
                combined = events_list s @ other_list;
                merged =
                  (if \<not> sorted_flag s \<and> \<not> other_sorted then std_sort combined
                   else
                     let run1 = take size combined;
                         run2 = drop size combined;
                         run1' = (if \<not> sorted_flag s then stable_sort run1 else run1);
                         run2' = (if \<not> other_sorted then stable_sort run2 else run2)
                     in inplace_merge run1' run2')
            in Inr \<lparr>events_list = merged, window_size = ctx_window,
                    events_size = events_size', sorted_flag = True\<rparr>)"

subsection \<open>get_event_level\<close>

text \<open>\<open>sort()\<close>: a stable sort of the observations; the flag is left as it is.\<close>

definition sort_events :: "WindowFunnelState \<Rightarrow> WindowFunnelState" where
  "sort_events s = s\<lparr>events_list := stable_sort (events_list s)\<rparr>"

text \<open>
  One iteration of the first loop over \<open>events_timestamp\<close>. The result is a failure, the
  value of the early \<open>return\<close> (\<open>Inr (Inl r)\<close>), or the array after the iteration
  (\<open>Inr (Inr ts)\<close>). \<open>event_idx - 1\<close> and \<open>event_idx + 1\<close> are computed in \<open>int\<close> after
  integral promotion, hence on \<open>unat\<close>. The sum with \<open>window_size\<close> is a signed 64-bit sum;
  it wraps around here, where C++ leaves its overflow undefined.
\<close>

definition process_event ::
  "i64 \<Rightarrow> u8 \<Rightarrow> i64 list \<Rightarrow> TimestampEvent \<Rightarrow> error + (i32 + i64 list)" where
  "process_event window events_sz events_timestamp e =
     (let timestamp = fst e; event_idx0 = snd e in
      if event_idx0 = 0 then Inr (Inr events_timestamp)
      else
        let event_idx = event_idx0 - 1 in
        if event_idx = 0 then
          (if 0 < length events_timestamp
           then Inr (Inr (events_timestamp[0 := timestamp]))
           else Inl IndexOutOfRange)
        else if \<not> unat event_idx - 1 < length events_timestamp then Inl IndexOutOfRange
        else if 0 \<le> sint (events_timestamp ! (unat event_idx - 1)) \<and>
                sint timestamp \<le> sint (events_timestamp ! (unat event_idx - 1) + window)
        then
          (if \<not> unat event_idx < length events_timestamp then Inl IndexOutOfRange
           else if unat event_idx + 1 = unat events_sz then Inr (Inl (ucast events_sz))
           else Inr (Inr (events_timestamp[unat event_idx :=
                                            events_timestamp ! (unat event_idx - 1)])))
        else Inr (Inr events_timestamp))"

fun event_loop ::
  "i64 \<Rightarrow> u8 \<Rightarrow> TimestampEvent list \<Rightarrow> i64 list \<Rightarrow> error + (i32 + i64 list)" where
  "event_loop window events_sz [] events_timestamp = Inr (Inr events_timestamp)"
| "event_loop window events_sz (e # rest) events_timestamp =
     (case process_event window events_sz events_timestamp e of
        Inl err \<Rightarrow> Inl err
      | Inr (Inl r) \<Rightarrow> Inr (Inl r)
      | Inr (Inr events_timestamp') \<Rightarrow> event_loop window events_sz rest events_timestamp')"

text \<open>The second loop: \<open>for (event = events_timestamp.size(); event > 0; --event)\<close>.\<close>

fun last_reached :: "i64 list \<Rightarrow> nat \<Rightarrow> i32" where
  "last_reached events_timestamp 0 = 0"
| "last_reached events_timestamp (Suc event) =
     (if 0 \<le> sint (events_timestamp ! event) then of_nat (Suc event)
      else last_reached events_timestamp event)"

definition get_event_level :: "WindowFunnelState \<Rightarrow> error + i32" where
  "get_event_level s =
     (let s' = (if \<not> sorted_flag s then sort_events s else s);
          events_timestamp = replicate (unat (events_size s')) (- 1)
      in case event_loop (window_size s') (events_size s') (events_list s') events_timestamp of
           Inl err \<Rightarrow> Inl err
         | Inr (Inl r) \<Rightarrow> Inr r
         | Inr (Inr ts) \<Rightarrow> Inr (last_reached ts (length ts)))"

subsection \<open>Notions used to state the properties\<close>

text \<open>Non-decreasing under the lexicographic order on (timestamp, step index).\<close>

definition sorted_events :: "TimestampEvent list \<Rightarrow> bool" where
  "sorted_events xs \<longleftrightarrow> sorted (map event_key xs)"

text \<open>The flag is conservative: when it is set, the observations are sorted.\<close>

definition flag_conservative :: "WindowFunnelState \<Rightarrow> bool" where
  "flag_conservative s \<longleftrightarrow> (sorted_flag s \<longrightarrow> sorted_events (events_list s))"

text \<open>A row whose sorted flag, when set, tells the truth about its observations.\<close>

definition honestly_flagged :: "DatumArray \<Rightarrow> bool" where
  "honestly_flagged datum_array \<longleftrightarrow>
     (case deserialize datum_array of
        Inl err \<Rightarrow> True
      | Inr (n, other_sorted, other_list) \<Rightarrow> other_sorted \<longrightarrow> sorted_events other_list)"

text \<open>Sequences of calls on one state; a failing call ends the run.\<close>

datatype operation = Update i64 u8 | Merge DatumArray

fun apply_operation ::
  "i64 \<Rightarrow> WindowFunnelState \<Rightarrow> operation \<Rightarrow> error + WindowFunnelState" where
  "apply_operation ctx_window s (Update timestamp event_level) =
     Inr (update timestamp event_level s)"
| "apply_operation ctx_window s (Merge datum_array) =
     deserialize_and_merge ctx_window s datum_array"

fun run_operations ::
  "i64 \<Rightarrow> WindowFunnelState \<Rightarrow> operation list \<Rightarrow> error + WindowFunnelState" where
  "run_operations ctx_window s [] = Inr s"
| "run_operations ctx_window s (p # ps) =
     (case apply_operation ctx_window s p of
        Inl err \<Rightarrow> Inl err
      | Inr s' \<Rightarrow> run_operations ctx_window s' ps)"

text \<open>An operation whose row, if it is a merge, is honestly flagged.\<close>

fun honest_operation :: "operation \<Rightarrow> bool" where
  "honest_operation (Update timestamp event_level) = True"
| "honest_operation (Merge datum_array) = honestly_flagged datum_array"

text \<open>Feeding a list of observations to \<open>update\<close>, one call each, in order.\<close>

definition update_all :: "TimestampEvent list \<Rightarrow> WindowFunnelState \<Rightarrow> WindowFunnelState" where
  "update_all obs s = fold (\<lambda>e. update (fst e) (snd e)) obs s"

text \<open>The pairs that the decoding loop reads from a sequence, by recursion on the sequence.\<close>

fun pairs_of :: "DatumArray \<Rightarrow> TimestampEvent list" where
  "pairs_of (t # l # rest) = (t, ucast l) # pairs_of rest"
| "pairs_of _ = []"

text \<open>
  The value of \<open>get_event_level\<close> from the outcome of its first loop: a failure, the early
  return, or the second loop over the array that the first loop left.
\<close>

definition finish :: "error + (i32 + i64 list) \<Rightarrow> error + i32" where
  "finish outcome =
     (case outcome of
        Inl err \<Rightarrow> Inl err
      | Inr (Inl r) \<Rightarrow> Inr r
      | Inr (Inr ts) \<Rightarrow> Inr (last_reached ts (length ts)))"

text \<open>
  Two arrays of reached timestamps that differ only where both hold a negative value, which
  the tests \<open>>= 0\<close> read as unreached.
\<close>

definition same_reached :: "i64 list \<Rightarrow> i64 list \<Rightarrow> bool" where
  "same_reached ts ts' \<longleftrightarrow>
     length ts = length ts' \<and>
     (\<forall>i<length ts. 0 \<le> sint (ts ! i) \<or> 0 \<le> sint (ts' ! i) \<longrightarrow> ts ! i = ts' ! i)"

text \<open>An observation of step 1 with a negative timestamp.\<close>

definition negative_start :: "TimestampEvent \<Rightarrow> bool" where
  "negative_start e \<longleftrightarrow> snd e = 1 \<and> sint (fst e) < 0"

text \<open>The observations a row contributes to a merge; none when the row cannot be decoded.\<close>

definition row_events :: "DatumArray \<Rightarrow> TimestampEvent list" where
  "row_events datum_array =
     (case deserialize datum_array of
        Inl err \<Rightarrow> []
      | Inr (n, other_sorted, other_list) \<Rightarrow> other_list)"

text \<open>The observations that matched a step: those the first loop does not skip.\<close>

definition matched :: "TimestampEvent list \<Rightarrow> TimestampEvent list" where
  "matched xs = filter (\<lambda>e. snd e \<noteq> 0) xs"

section \<open>Auxiliary facts\<close>

subsection \<open>Order, sorting and merging\<close>

lemma ComparePairFirst_event_key:
  "ComparePairFirst lhs rhs \<longleftrightarrow> event_key lhs < event_key rhs"
  by (auto simp: ComparePairFirst_def event_key_def less_prod_def)

lemma event_key_inj: "a = b" if "event_key a = event_key b"
proof -
  have t: "sint (fst a) = sint (fst b)" and l: "unat (snd a) = unat (snd b)"
    using that by (simp_all add: event_key_def)
  have "fst a = fst b" using t by (rule signed_word_eqI)
  moreover have "snd a = snd b" using l by (rule unsigned_word_eqI)
  ultimately show ?thesis by (simp add: prod_eq_iff)
qed

lemma sorted_events_unique:
  assumes "mset xs = mset ys" "sorted_events xs" "sorted_events ys"
  shows "xs = ys"
proof -
  have "mset (map event_key xs) = mset (map event_key ys)"
    using assms(1) by (metis mset_map)
  hence "map event_key xs = map event_key ys"
    using assms(2,3) unfolding sorted_events_def
    by (metis properties_for_sort)
  moreover have "inj event_key" by (rule injI) (rule event_key_inj)
  ultimately show ?thesis by (metis inj_map_eq_map)
qed

lemma mset_stable_sort: "mset (stable_sort xs) = mset xs"
  by (simp add: stable_sort_def)

lemma sorted_stable_sort: "sorted_events (stable_sort xs)"
  by (simp add: stable_sort_def sorted_events_def)

lemma std_sort_eq: "std_sort xs = stable_sort xs"
  by (simp add: stable_sort_def std_sort_def)

lemma stable_sort_id: "sorted_events xs \<Longrightarrow> stable_sort xs = xs"
  by (simp add: stable_sort_def sorted_events_def sort_key_id_if_sorted)

lemma stable_sort_cong: "mset xs = mset ys \<Longrightarrow> stable_sort xs = stable_sort ys"
  by (rule sorted_events_unique) (simp_all add: mset_stable_sort sorted_stable_sort)

lemma mset_inplace_merge: "mset (inplace_merge xs ys) = mset xs + mset ys"
  by (induction xs ys rule: inplace_merge.induct) simp_all

lemma set_inplace_merge: "set (inplace_merge xs ys) = set xs \<union> set ys"
  by (metis mset_inplace_merge set_mset_mset set_mset_union)

lemma sorted_events_Cons:
  "sorted_events (x # xs) \<longleftrightarrow> (\<forall>y\<in>set xs. event_key x \<le> event_key y) \<and> sorted_events xs"
  by (auto simp: sorted_events_def)

lemma sorted_inplace_merge:
  "sorted_events xs \<Longrightarrow> sorted_events ys \<Longrightarrow> sorted_events (inplace_merge xs ys)"
proof (induction xs ys rule: inplace_merge.induct)
  case (3 x xs y ys)
  then show ?case
    by (auto simp: sorted_events_Cons set_inplace_merge simp del: inplace_merge.simps
        simp add: inplace_merge.simps(3)) 
qed (simp_all add: sorted_events_def)

lemma inplace_merge_stable:
  "sorted_events xs \<Longrightarrow> sorted_events ys \<Longrightarrow>
   filter (\<lambda>e. event_key e = k) (inplace_merge xs ys) =
   filter (\<lambda>e. event_key e = k) xs @ filter (\<lambda>e. event_key e = k) ys"
proof (induction xs ys rule: inplace_merge.induct)
  case (3 x xs y ys)
  show ?case
  proof (cases "event_key y < event_key x")
    case True
    have ys: "sorted_events ys" using 3(4) by (simp add: sorted_events_Cons)
    have IH: "filter (\<lambda>e. event_key e = k) (inplace_merge (x # xs) ys) =
      filter (\<lambda>e. event_key e = k) (x # xs) @ filter (\<lambda>e. event_key e = k) ys"
      using 3(1)[OF True 3(3) ys] .
    show ?thesis
    proof (cases "event_key y = k")
      case yk: True
      have "\<forall>e\<in>set (x # xs). event_key e \<noteq> k"
        using True yk 3(3) by (auto simp: sorted_events_Cons)
      hence "filter (\<lambda>e. event_key e = k) (x # xs) = []"
        unfolding filter_empty_conv by blast
      then show ?thesis using True yk IH by simp
    next
      case False
      then show ?thesis using True IH by simp
    qed
  next
    case False
    have xs: "sorted_events xs" using 3(3) by (simp add: sorted_events_Cons)
    show ?thesis using False 3(2)[OF False xs 3(4)] by simp
  qed
qed simp_all

subsection \<open>Facts about update\<close>

lemma update_noop: "events_list s \<noteq> [] \<Longrightarrow> update t 0 s = s"
  by (simp add: update_def)

lemma events_list_update:
  "events_list (update t l s) =
     (if events_list s \<noteq> [] \<and> l = 0 then events_list s else events_list s @ [(t, l)])"
  by (simp add: update_def Let_def)

lemma sorted_flag_update:
  "sorted_flag (update t l s) =
     (if events_list s \<noteq> [] \<and> l = 0 then sorted_flag s
      else sorted_flag s \<and> \<not> (events_list s \<noteq> [] \<and> event_key (t, l) < event_key (last (events_list s))))"
proof -
  have eq: "sint a = sint t \<longleftrightarrow> a = t" for a :: i64
    by (auto intro: signed_word_eqI)
  show ?thesis
    by (auto simp: update_def Let_def event_key_def less_prod_def eq)
qed

lemma window_size_update [simp]: "window_size (update t l s) = window_size s"
  by (simp add: update_def Let_def)

lemma events_size_update [simp]: "events_size (update t l s) = events_size s"
  by (simp add: update_def Let_def)

lemma sorted_events_snoc:
  "sorted_events (xs @ [e]) \<longleftrightarrow>
     sorted_events xs \<and> (xs \<noteq> [] \<longrightarrow> event_key (last xs) \<le> event_key e)"
proof (cases xs rule: rev_cases)
  case Nil
  then show ?thesis by (simp add: sorted_events_def)
next
  case (snoc ys y)
  then show ?thesis
    by (auto simp: sorted_events_def sorted_append)
qed

lemma sorted_events_Nil [simp]: "sorted_events []"
  by (simp add: sorted_events_def)

lemma sorted_events_single [simp]: "sorted_events [e]"
  by (simp add: sorted_events_def)

lemma flag_conservative_update:
  "flag_conservative s \<Longrightarrow> flag_conservative (update t l s)"
  unfolding flag_conservative_def
  by (auto simp: sorted_flag_update events_list_update sorted_events_snoc not_less)

subsection \<open>Facts about the decoding loop\<close>

lemma other_list_loop_pairs_of:
  "other_list_loop datum_array i other_list = other_list @ pairs_of (drop i datum_array)"
proof (induction datum_array i other_list rule: other_list_loop.induct)
  case (1 datum_array i other_list)
  show ?case
  proof (cases "i < length datum_array - 1")
    case True
    then have "drop i datum_array =
        datum_array ! i # datum_array ! (i + 1) # drop (i + 2) datum_array"
      by (metis Cons_nth_drop_Suc Suc_eq_plus1 add_2_eq_Suc' less_diff_conv add_lessD1)
    then show ?thesis
      using True 1 by (simp del: other_list_loop.simps add: other_list_loop.simps [of datum_array i])
  next
    case False
    then have "length (drop i datum_array) \<le> 1" by simp
    then have "pairs_of (drop i datum_array) = []"
      by (cases "drop i datum_array" rule: pairs_of.cases) simp_all
    then show ?thesis
      using False by (simp del: other_list_loop.simps add: other_list_loop.simps [of datum_array i])
  qed
qed

lemma pairs_of_encode:
  "pairs_of (concat (map (\<lambda>e. [fst e, ucast (snd e)]) es)) = es"
proof (induction es)
  case (Cons e es)
  have "(ucast (ucast (snd e) :: i64) :: u8) = snd e"
    by (rule ucast_up_ucast_id) (simp add: is_up)
  then show ?case using Cons by (simp add: prod_eq_iff)
qed simp

lemma pairs_of_odd:
  "even (length xs) \<Longrightarrow> pairs_of (xs @ [x]) = pairs_of xs"
  by (induction xs rule: pairs_of.induct) simp_all

subsection \<open>Merging a decoded row\<close>

lemma deserialize_serialize:
  "deserialize (serialize_array s) = Inr (events_size s, sorted_flag s, events_list s)"
proof -
  have "(ucast (ucast (events_size s) :: i64) :: u8) = events_size s"
    by (rule ucast_up_ucast_id) (simp add: is_up)
  then show ?thesis
    by (simp add: deserialize_def serialize_array_def other_list_loop_pairs_of pairs_of_encode
        del: other_list_loop.simps)
qed

lemma inplace_merge_eq_sort:
  assumes "sorted_events xs" "sorted_events ys"
  shows "inplace_merge xs ys = stable_sort (xs @ ys)"
  by (rule sorted_events_unique)
    (simp_all add: mset_inplace_merge mset_stable_sort sorted_inplace_merge assms
      sorted_stable_sort)

lemma stable_sort_append_sort:
  "stable_sort (stable_sort xs @ ys) = stable_sort (xs @ ys)"
  "stable_sort (xs @ stable_sort ys) = stable_sort (xs @ ys)"
  by (rule stable_sort_cong, simp add: mset_stable_sort)+

lemma merged_runs_eq_sort:
  assumes "f1 \<longrightarrow> sorted_events xs" "f2 \<longrightarrow> sorted_events ys"
  shows "inplace_merge (if \<not> f1 then stable_sort xs else xs) (if \<not> f2 then stable_sort ys else ys)
         = stable_sort (xs @ ys)"
  using assms
  by (simp add: inplace_merge_eq_sort sorted_stable_sort stable_sort_append_sort)

lemma deserialize_and_merge_eq:
  assumes "datum_array \<noteq> []"
    and "deserialize datum_array = Inr (n, other_sorted, other_list)"
    and "flag_conservative s"
    and "other_sorted \<longrightarrow> sorted_events other_list"
  shows "deserialize_and_merge ctx_window s datum_array =
         Inr \<lparr>events_list = stable_sort (events_list s @ other_list), window_size = ctx_window,
              events_size = n, sorted_flag = True\<rparr>"
proof -
  have "sorted_flag s \<longrightarrow> sorted_events (events_list s)"
    using assms(3) by (simp add: flag_conservative_def)
  from merged_runs_eq_sort [OF this assms(4)] show ?thesis
    using assms(1,2) by (simp add: deserialize_and_merge_def Let_def std_sort_eq)
qed

lemma deserialize_and_merge_conservative:
  assumes "flag_conservative s" "honestly_flagged datum_array"
    and "deserialize_and_merge ctx_window s datum_array = Inr s'"
  shows "flag_conservative s'"
proof (cases "datum_array = []")
  case True
  then show ?thesis using assms by (simp add: deserialize_and_merge_def)
next
  case False
  show ?thesis
  proof (cases "deserialize datum_array")
    case (Inl e)
    then show ?thesis using assms(3) False by (simp add: deserialize_and_merge_def)
  next
    case (Inr r)
    obtain n other_sorted other_list where r: "r = (n, other_sorted, other_list)"
      by (cases r) auto
    have "other_sorted \<longrightarrow> sorted_events other_list"
      using assms(2) Inr r by (simp add: honestly_flagged_def)
    from deserialize_and_merge_eq [OF False Inr [unfolded r] assms(1) this, of ctx_window]
    show ?thesis using assms(3) by (auto simp: flag_conservative_def sorted_stable_sort)
  qed
qed

lemma run_operations_conservative:
  assumes "flag_conservative s0"
    and "\<forall>p\<in>set ps. honest_operation p"
    and "run_operations ctx_window s0 ps = Inr s"
  shows "flag_conservative s"
  using assms
proof (induction ps arbitrary: s0)
  case Nil
  then show ?case by simp
next
  case (Cons p ps)
  show ?case
  proof (cases p)
    case (Update t l)
    then show ?thesis
      using Cons.prems Cons.IH [of "update t l s0"] by (simp add: flag_conservative_update)
  next
    case (Merge datum_array)
    then obtain s1 where s1: "deserialize_and_merge ctx_window s0 datum_array = Inr s1"
      and run: "run_operations ctx_window s1 ps = Inr s"
      using Cons.prems(3) by (auto split: sum.splits)
    have "honestly_flagged datum_array" using Cons.prems(2) Merge by simp
    from deserialize_and_merge_conservative [OF Cons.prems(1) this s1]
    show ?thesis using Cons.IH [OF _ _ run] Cons.prems(2) by simp
  qed
qed

subsection \<open>The evaluation loops\<close>

lemma unat_pred: "l \<noteq> 0 \<Longrightarrow> unat (l - 1) = unat l - 1" for l :: u8
  by (rule unat_minus_one)

lemma pred_eq_0_iff: "l \<noteq> 0 \<Longrightarrow> l - 1 = 0 \<longleftrightarrow> unat l = 1" for l :: u8
  by (metis diff_add_cancel add_0 unat_1 unsigned_word_eqI cancel_comm_monoid_add_class.diff_cancel)

lemma process_event_skip: "snd e = 0 \<Longrightarrow> process_event w es ts e = Inr (Inr ts)"
  by (simp add: process_event_def)

lemma process_event_in_bounds:
  assumes "length ts = unat es" "unat (snd e) \<le> unat es"
  shows "process_event w es ts e = Inr (Inl (ucast es)) \<or>
         (\<exists>ts'. process_event w es ts e = Inr (Inr ts') \<and> length ts' = length ts)"
proof (cases "snd e = 0")
  case True
  then show ?thesis by (simp add: process_event_def)
next
  case False
  have pos: "0 < unat (snd e)" using False by (simp add: unat_gt_0)
  show ?thesis
  proof (cases "snd e - 1 = 0")
    case True
    then show ?thesis using False assms pos by (simp add: process_event_def Let_def)
  next
    case nz: False
    have "unat (snd e - 1) = unat (snd e) - 1" using False by (rule unat_pred)
    then show ?thesis using False nz assms pos by (auto simp: process_event_def Let_def)
  qed
qed

lemma event_loop_in_bounds:
  assumes "length ts = unat es" "\<forall>e\<in>set xs. unat (snd e) \<le> unat es"
  shows "event_loop w es xs ts = Inr (Inl (ucast es)) \<or>
         (\<exists>ts'. event_loop w es xs ts = Inr (Inr ts') \<and> length ts' = length ts)"
  using assms
proof (induction xs arbitrary: ts)
  case Nil
  then show ?case by simp
next
  case (Cons e xs)
  from process_event_in_bounds [OF Cons.prems(1), of e w] Cons.prems(2)
  consider "process_event w es ts e = Inr (Inl (ucast es))"
    | ts' where "process_event w es ts e = Inr (Inr ts')" "length ts' = length ts"
    by auto
  then show ?case
  proof cases
    case 1
    then show ?thesis by simp
  next
    case 2
    then show ?thesis using Cons.IH [of ts'] Cons.prems by simp
  qed
qed

lemma last_reached_le: "\<exists>m\<le>n. last_reached ts n = of_nat m"
proof (induction n)
  case 0
  then show ?case by simp
next
  case (Suc n)
  then show ?case by (cases "0 \<le> sint (ts ! n)") (auto intro: le_SucI)
qed

lemma sint_of_nat_small: "m \<le> 255 \<Longrightarrow> sint (of_nat m :: i32) = int m"
  by (simp add: signed_of_nat signed_take_bit_int_eq_self)

lemma ucast_u8_i32: "(ucast (w :: u8) :: i32) = of_nat (unat w)"
  by simp

lemma unat_u8_le: "unat (w :: u8) \<le> 255"
  using unsigned_less [of w, where ?'a = nat] by simp

lemma set_stable_sort: "set (stable_sort xs) = set xs"
  by (simp add: stable_sort_def)

lemma event_loop_append:
  "event_loop w es (xs @ ys) ts =
     (case event_loop w es xs ts of
        Inl err \<Rightarrow> Inl err
      | Inr (Inl r) \<Rightarrow> Inr (Inl r)
      | Inr (Inr ts') \<Rightarrow> event_loop w es ys ts')"
  by (induction xs arbitrary: ts) (simp_all split: sum.splits)

lemma event_loop_length:
  "event_loop w es xs ts = Inr (Inr ts') \<Longrightarrow> length ts' = length ts"
proof (induction xs arbitrary: ts)
  case Nil
  then show ?case by simp
next
  case (Cons e xs)
  then obtain ts1 where p: "process_event w es ts e = Inr (Inr ts1)"
    and l: "event_loop w es xs ts1 = Inr (Inr ts')"
    by (auto split: sum.splits)
  have "length ts1 = length ts"
    using p by (auto simp: process_event_def Let_def split: if_splits)
  then show ?case using Cons.IH [OF l] by simp
qed

lemma process_event_complete:
  assumes "l \<noteq> 0" "l - 1 \<noteq> 0" "unat (l - 1) + 1 = unat es" "length ts = unat es"
    and "0 \<le> sint (ts ! (unat (l - 1) - 1))"
    and "sint t \<le> sint (ts ! (unat (l - 1) - 1) + w)"
  shows "process_event w es ts (t, l) = Inr (Inl (ucast es))"
  using assms by (auto simp: process_event_def Let_def)

lemma sorted_events_prefix: "sorted_events (xs @ ys) \<Longrightarrow> sorted_events xs"
  by (simp add: sorted_events_def sorted_append)

lemma stable_sort_stable:
  "filter (\<lambda>e. event_key e = k) (stable_sort xs) = filter (\<lambda>e. event_key e = k) xs"
  by (simp add: stable_sort_def sort_key_stable)

subsection \<open>Arrays that differ in unreached entries\<close>

lemma get_event_level_finish:
  "get_event_level s =
     finish (event_loop (window_size s) (events_size s)
       (if \<not> sorted_flag s then stable_sort (events_list s) else events_list s)
       (replicate (unat (events_size s)) (- 1)))"
  by (simp add: get_event_level_def finish_def sort_events_def Let_def)

lemma same_reached_refl: "same_reached ts ts"
  by (simp add: same_reached_def)

lemma same_reached_update:
  assumes "same_reached ts ts'"
  shows "same_reached (ts[i := v]) (ts'[i := v])"
  unfolding same_reached_def
proof (intro conjI allI impI)
  show "length (ts[i := v]) = length (ts'[i := v])"
    using assms by (simp add: same_reached_def)
next
  fix j
  assume j: "j < length (ts[i := v])"
    and nn: "0 \<le> sint (ts[i := v] ! j) \<or> 0 \<le> sint (ts'[i := v] ! j)"
  have len: "length ts' = length ts" using assms by (simp add: same_reached_def)
  show "ts[i := v] ! j = ts'[i := v] ! j"
  proof (cases "j = i")
    case True
    then show ?thesis using j len by simp
  next
    case False
    then show ?thesis using j nn assms len by (auto simp: same_reached_def)
  qed
qed

lemma same_reached_entry:
  assumes "same_reached ts ts'" "i < length ts"
    and "0 \<le> sint (ts ! i) \<or> 0 \<le> sint (ts' ! i)"
  shows "ts ! i = ts' ! i"
proof -
  have "\<forall>i<length ts. 0 \<le> sint (ts ! i) \<or> 0 \<le> sint (ts' ! i) \<longrightarrow> ts ! i = ts' ! i"
    using assms(1) unfolding same_reached_def by (rule conjunct2)
  then show ?thesis using assms(2,3) by blast
qed

lemma same_reached_nonneg:
  assumes "same_reached ts ts'" "i < length ts"
  shows "0 \<le> sint (ts ! i) \<longleftrightarrow> 0 \<le> sint (ts' ! i)"
proof
  assume a: "0 \<le> sint (ts ! i)"
  then have "ts ! i = ts' ! i" using same_reached_entry [OF assms] by blast
  then show "0 \<le> sint (ts' ! i)" using a by simp
next
  assume a: "0 \<le> sint (ts' ! i)"
  then have "ts ! i = ts' ! i" using same_reached_entry [OF assms] by blast
  then show "0 \<le> sint (ts ! i)" using a by simp
qed

lemma same_reached_value:
  assumes "same_reached ts ts'" "i < length ts" "0 \<le> sint (ts ! i)"
  shows "ts' ! i = ts ! i"
  using same_reached_entry [OF assms(1,2)] assms(3) by simp

lemma same_reached_length: "same_reached ts ts' \<Longrightarrow> length ts' = length ts"
  by (simp add: same_reached_def)

lemma last_reached_same:
  "same_reached ts ts' \<Longrightarrow> n \<le> length ts \<Longrightarrow> last_reached ts n = last_reached ts' n"
proof (induction n)
  case 0
  then show ?case by simp
next
  case (Suc n)
  then have "0 \<le> sint (ts ! n) \<longleftrightarrow> 0 \<le> sint (ts' ! n)"
    by (simp add: same_reached_nonneg)
  then show ?case using Suc by simp
qed

lemma finish_same:
  "same_reached ts ts' \<Longrightarrow> finish (Inr (Inr ts)) = finish (Inr (Inr ts'))"
  by (simp add: finish_def same_reached_length last_reached_same)

lemma process_event_step1:
  "snd e \<noteq> 0 \<Longrightarrow> snd e - 1 = 0 \<Longrightarrow>
   process_event w es ts e =
     (if 0 < length ts then Inr (Inr (ts[0 := fst e])) else Inl IndexOutOfRange)"
  by (simp add: process_event_def)

lemma process_event_later:
  "snd e \<noteq> 0 \<Longrightarrow> snd e - 1 \<noteq> 0 \<Longrightarrow>
   process_event w es ts e =
     (if \<not> unat (snd e - 1) - 1 < length ts then Inl IndexOutOfRange
      else if 0 \<le> sint (ts ! (unat (snd e - 1) - 1)) \<and>
              sint (fst e) \<le> sint (ts ! (unat (snd e - 1) - 1) + w)
      then
        (if \<not> unat (snd e - 1) < length ts then Inl IndexOutOfRange
         else if unat (snd e - 1) + 1 = unat es then Inr (Inl (ucast es))
         else Inr (Inr (ts[unat (snd e - 1) := ts ! (unat (snd e - 1) - 1)])))
      else Inr (Inr ts))"
  by (simp add: process_event_def Let_def)

lemma process_event_same:
  assumes "same_reached ts ts'"
  shows "(\<exists>a b. process_event w es ts e = Inr (Inr a) \<and> process_event w es ts' e = Inr (Inr b) \<and>
            same_reached a b) \<or>
         (process_event w es ts e = process_event w es ts' e \<and>
            (\<forall>a. process_event w es ts e \<noteq> Inr (Inr a)))"
proof -
  have len: "length ts' = length ts" using assms by (rule same_reached_length)
  consider "snd e = 0" | "snd e \<noteq> 0" "snd e - 1 = 0" | "snd e \<noteq> 0" "snd e - 1 \<noteq> 0"
    by blast
  then show ?thesis
  proof cases
    case 1
    then show ?thesis using assms by (simp add: process_event_skip)
  next
    case 2
    then show ?thesis
      using assms len by (simp add: process_event_step1 same_reached_update)
  next
    case 3
    let ?i = "unat (snd e - 1) - 1"
    show ?thesis
    proof (cases "?i < length ts")
      case False
      then show ?thesis using 3 len by (simp add: process_event_later)
    next
      case True
      have nn: "0 \<le> sint (ts ! ?i) \<longleftrightarrow> 0 \<le> sint (ts' ! ?i)"
        using assms True by (rule same_reached_nonneg)
      show ?thesis
      proof (cases "0 \<le> sint (ts ! ?i)")
        case nonneg: True
        have eq: "ts' ! ?i = ts ! ?i" using assms True nonneg by (rule same_reached_value)
        show ?thesis
          using 3 True nonneg eq len assms
          by (simp add: process_event_later same_reached_update)
      next
        case neg: False
        then show ?thesis
          using 3 True nn len assms by (simp add: process_event_later)
      qed
    qed
  qed
qed

lemma process_event_first_entry:
  assumes "process_event w es ts e = Inr (Inr a)"
  shows "a ! 0 = (if snd e \<noteq> 0 \<and> snd e - 1 = 0 then fst e else ts ! 0)"
proof -
  consider "snd e = 0" | "snd e \<noteq> 0" "snd e - 1 = 0" | "snd e \<noteq> 0" "snd e - 1 \<noteq> 0"
    by blast
  then show ?thesis
  proof cases
    case 1
    then show ?thesis using assms by (simp add: process_event_skip)
  next
    case 2
    then show ?thesis using assms by (auto simp: process_event_step1 split: if_splits)
  next
    case 3
    then have "unat (snd e - 1) \<noteq> 0" by (simp add: unat_eq_0)
    then show ?thesis
      using 3 assms by (auto simp: process_event_later split: if_splits)
  qed
qed

lemma process_event_length:
  assumes "process_event w es ts e = Inr (Inr a)"
  shows "length a = length ts"
  using assms by (auto simp: process_event_def Let_def split: if_splits)

lemma process_event_negative_start:
  assumes "negative_start e" "0 < length ts"
  shows "process_event w es ts e = Inr (Inr (ts[0 := fst e]))"
  using assms by (simp add: process_event_def negative_start_def)

lemma same_reached_overwrite_negative:
  assumes "same_reached ts ts'" "sint v < 0" "sint (ts' ! 0) < 0"
  shows "same_reached (ts[0 := v]) ts'"
  unfolding same_reached_def
proof (intro conjI allI impI)
  show "length (ts[0 := v]) = length ts'"
    using assms(1) by (simp add: same_reached_def)
next
  fix j
  assume j: "j < length (ts[0 := v])"
    and nn: "0 \<le> sint (ts[0 := v] ! j) \<or> 0 \<le> sint (ts' ! j)"
  show "ts[0 := v] ! j = ts' ! j"
  proof (cases "j = 0")
    case True
    then show ?thesis using j nn assms(2,3) by simp
  next
    case False
    then have nn': "0 \<le> sint (ts ! j) \<or> 0 \<le> sint (ts' ! j)" using nn by simp
    have j': "j < length ts" using j by simp
    have "ts ! j = ts' ! j" using assms(1) j' nn' by (rule same_reached_entry)
    then show ?thesis using False by simp
  qed
qed

lemma event_loop_drop_negative_starts:
  assumes "same_reached ts ts'" "sorted_events xs" "0 < length ts"
    and "\<forall>e\<in>set xs. sint (fst e) < 0 \<longrightarrow> sint (ts ! 0) < 0"
  shows "finish (event_loop w es xs ts) =
         finish (event_loop w es (filter (\<lambda>e. \<not> negative_start e) xs) ts')"
  using assms
proof (induction xs arbitrary: ts ts')
  case Nil
  then show ?case by (simp add: finish_same)
next
  case (Cons e xs)
  have sorted_rest: "sorted_events xs" and least: "\<forall>y\<in>set xs. event_key e \<le> event_key y"
    using Cons.prems(2) by (simp_all add: sorted_events_Cons)
  have later: "sint (fst e) \<le> sint (fst y)" if "y \<in> set xs" for y
    using least that by (auto simp: event_key_def less_eq_prod_def)
  show ?case
  proof (cases "negative_start e")
    case True
    have step: "process_event w es ts e = Inr (Inr (ts[0 := fst e]))"
      using True Cons.prems(3) by (rule process_event_negative_start)
    have neg: "sint (fst e) < 0" using True by (simp add: negative_start_def)
    then have "sint (ts ! 0) < 0" using Cons.prems(4) by simp
    then have "sint (ts' ! 0) < 0"
      using same_reached_nonneg [OF Cons.prems(1,3)] by simp
    with neg have same: "same_reached (ts[0 := fst e]) ts'"
      using Cons.prems(1) by (simp add: same_reached_overwrite_negative)
    have "\<forall>y\<in>set xs. sint (fst y) < 0 \<longrightarrow> sint (ts[0 := fst e] ! 0) < 0"
      using neg Cons.prems(3) by simp
    from Cons.IH [OF same sorted_rest _ this] Cons.prems(3) step True
    show ?thesis by simp
  next
    case False
    from process_event_same [OF Cons.prems(1), of w es e]
    show ?thesis
    proof (elim disjE exE conjE)
      fix a b
      assume a: "process_event w es ts e = Inr (Inr a)"
        and b: "process_event w es ts' e = Inr (Inr b)"
        and same: "same_reached a b"
      have "length a = length ts"
        using a by (rule process_event_length)
      then have pos: "0 < length a" using Cons.prems(3) by simp
      have first: "a ! 0 = (if snd e \<noteq> 0 \<and> snd e - 1 = 0 then fst e else ts ! 0)"
        using a by (rule process_event_first_entry)
      have "\<forall>y\<in>set xs. sint (fst y) < 0 \<longrightarrow> sint (a ! 0) < 0"
      proof (intro ballI impI)
        fix y assume y: "y \<in> set xs" "sint (fst y) < 0"
        show "sint (a ! 0) < 0"
        proof (cases "snd e \<noteq> 0 \<and> snd e - 1 = 0")
          case True
          then show ?thesis using first later [OF y(1)] y(2) by simp
        next
          case False
          then show ?thesis using first Cons.prems(4) y by auto
        qed
      qed
      from Cons.IH [OF same sorted_rest pos this] a b False
      show ?thesis by simp
    next
      assume "process_event w es ts e = process_event w es ts' e"
        and "\<forall>a. process_event w es ts e \<noteq> Inr (Inr a)"
      then show ?thesis
        using False by (auto simp: finish_def split: sum.splits)
    qed
  qed
qed

lemma last_reached_unreached: "m \<le> n \<Longrightarrow> last_reached (replicate n (- 1)) m = 0"
  by (induction m) simp_all

lemma get_event_level_no_events:
  "events_list s = [] \<Longrightarrow> get_event_level s = Inr 0"
  by (simp add: get_event_level_finish finish_def stable_sort_def last_reached_unreached)

lemma filter_stable_sort: "filter P (stable_sort xs) = stable_sort (filter P xs)"
  by (simp add: stable_sort_def filter_sort)

subsection \<open>Reached entries hold step-1 timestamps\<close>

lemma process_event_reached:
  assumes step: "process_event w es ts e = Inr (Inr a)"
    and inv: "\<forall>i<length ts. ts ! i = - 1 \<or> (ts ! i, 1) \<in> S"
  shows "\<forall>i<length a. a ! i = - 1 \<or> (a ! i, 1) \<in> insert e S"
proof -
  consider "snd e = 0" | "snd e \<noteq> 0" "snd e - 1 = 0" | "snd e \<noteq> 0" "snd e - 1 \<noteq> 0"
    by blast
  then show ?thesis
  proof cases
    case 1
    then have "a = ts" using step by (simp add: process_event_skip)
    then show ?thesis using inv by blast
  next
    case 2
    then have a: "a = ts[0 := fst e]" and pos: "0 < length ts"
      using step by (simp_all add: process_event_step1 split: if_splits)
    have "snd e = 1" using 2(2) by simp
    then have e: "e = (fst e, 1)" by (simp add: prod_eq_iff)
    show ?thesis
    proof (intro allI impI)
      fix i assume "i < length a"
      then have i: "i < length ts" using a by simp
      show "a ! i = - 1 \<or> (a ! i, 1) \<in> insert e S"
      proof (cases "i = 0")
        case True
        then have "a ! i = fst e" using a pos by simp
        then show ?thesis using e by (metis insertI1)
      next
        case False
        then have "a ! i = ts ! i" using a by simp
        then show ?thesis using inv i by auto
      qed
    qed
  next
    case 3
    let ?k = "unat (snd e - 1)"
    from step 3 consider "a = ts" | "a = ts[?k := ts ! (?k - 1)]" "?k - 1 < length ts"
      by (auto simp: process_event_later split: if_splits)
    then show ?thesis
    proof cases
      case 1
      then show ?thesis using inv by blast
    next
      case 2
      show ?thesis
      proof (intro allI impI)
        fix i assume "i < length a"
        then have i: "i < length ts" using 2(1) by simp
        show "a ! i = - 1 \<or> (a ! i, 1) \<in> insert e S"
        proof (cases "i = ?k")
          case True
          then have "a ! i = ts ! (?k - 1)" using 2(1) i by simp
          then show ?thesis using inv 2(2) by auto
        next
          case False
          then have "a ! i = ts ! i" using 2(1) by simp
          then show ?thesis using inv i by auto
        qed
      qed
    qed
  qed
qed

lemma event_loop_reached:
  assumes "event_loop w es evs ts = Inr (Inr ts')"
    and "\<forall>i<length ts. ts ! i = - 1 \<or> (ts ! i, 1) \<in> S"
  shows "\<forall>i<length ts'. ts' ! i = - 1 \<or> (ts' ! i, 1) \<in> S \<union> set evs"
  using assms
proof (induction evs arbitrary: ts S)
  case Nil
  then show ?case by simp
next
  case (Cons e evs)
  then obtain a where a: "process_event w es ts e = Inr (Inr a)"
    and rest: "event_loop w es evs a = Inr (Inr ts')"
    by (auto split: sum.splits)
  from process_event_reached [OF a Cons.prems(2)]
  have "\<forall>i<length a. a ! i = - 1 \<or> (a ! i, 1) \<in> insert e S" .
  from Cons.IH [OF rest this] show ?case by simp
qed

subsection \<open>Sequences of updates\<close>

lemma update_all_Cons: "update_all (e # obs) s = update_all obs (update (fst e) (snd e) s)"
  by (simp add: update_all_def)

lemma update_all_Nil: "update_all [] s = s"
  by (simp add: update_all_def)

lemma update_all_conservative:
  "flag_conservative s \<Longrightarrow> flag_conservative (update_all obs s)"
  by (induction obs arbitrary: s) (simp_all add: update_all_Nil update_all_Cons flag_conservative_update)

lemma update_all_fields:
  "events_size (update_all obs s) = events_size s"
  "window_size (update_all obs s) = window_size s"
  by (induction obs arbitrary: s) (simp_all add: update_all_Nil update_all_Cons)

lemma matched_update:
  "matched (events_list (update t l s)) = matched (events_list s) @ matched [(t, l)]"
  by (simp add: matched_def events_list_update)

lemma matched_append: "matched (xs @ ys) = matched xs @ matched ys"
  by (simp add: matched_def)

lemma matched_update_all:
  "matched (events_list (update_all obs s)) = matched (events_list s) @ matched obs"
proof (induction obs arbitrary: s)
  case Nil
  then show ?case by (simp add: update_all_Nil matched_def)
next
  case (Cons e obs)
  have "matched (e # obs) = matched [(fst e, snd e)] @ matched obs"
    by (simp add: matched_def)
  then show ?case by (simp add: update_all_Cons Cons.IH matched_update)
qed

lemma update_all_empty:
  "events_list (update_all obs s) = [] \<Longrightarrow> obs = []"
proof (induction obs arbitrary: s)
  case Nil
  then show ?case by simp
next
  case (Cons e obs)
  have "events_list (update_all obs (update (fst e) (snd e) s)) = []"
    using Cons.prems by (simp add: update_all_Cons)
  then have "obs = []" by (rule Cons.IH)
  then have "events_list (update (fst e) (snd e) s) = []"
    using Cons.prems by (simp add: update_all_Cons update_all_Nil)
  then show ?case by (simp add: events_list_update split: if_splits)
qed

subsection \<open>The result depends on the matched observations only\<close>

lemma event_loop_matched:
  "event_loop w es xs ts = event_loop w es (matched xs) ts"
proof (induction xs arbitrary: ts)
  case Nil
  then show ?case by (simp add: matched_def)
next
  case (Cons e xs)
  show ?case
  proof (cases "snd e = 0")
    case True
    then show ?thesis using Cons.IH by (simp add: matched_def process_event_skip)
  next
    case False
    then have "matched (e # xs) = e # matched xs" by (simp add: matched_def)
    then show ?thesis using Cons.IH by (simp split: sum.splits)
  qed
qed

lemma get_event_level_sorted:
  assumes "flag_conservative s"
  shows "get_event_level s =
     finish (event_loop (window_size s) (events_size s) (stable_sort (matched (events_list s)))
       (replicate (unat (events_size s)) (- 1)))"
proof -
  have "(if \<not> sorted_flag s then stable_sort (events_list s) else events_list s)
          = stable_sort (events_list s)"
    using assms by (simp add: flag_conservative_def stable_sort_id)
  moreover have "matched (stable_sort (events_list s)) = stable_sort (matched (events_list s))"
    by (simp add: matched_def filter_stable_sort)
  ultimately show ?thesis
    unfolding get_event_level_finish
    by (simp add: event_loop_matched [of _ _ "stable_sort (events_list s)"])
qed

lemma get_event_level_cong:
  assumes "flag_conservative a" "flag_conservative b"
    and "events_size a = events_size b" "window_size a = window_size b"
    and "mset (matched (events_list a)) = mset (matched (events_list b))"
  shows "get_event_level a = get_event_level b"
proof -
  have "stable_sort (matched (events_list a)) = stable_sort (matched (events_list b))"
    using assms(5) by (rule stable_sort_cong)
  then show ?thesis
    using assms(3,4) by (simp add: get_event_level_sorted assms(1,2))
qed

subsection \<open>Merging the rows of partial logs\<close>

lemma row_events_serialize: "row_events (serialize_array u) = events_list u"
  by (simp add: row_events_def deserialize_serialize)

lemma serialize_array_nonempty: "serialize_array u \<noteq> []"
  by (simp add: serialize_array_def)

lemma mset_matched_stable_sort:
  "mset (matched (stable_sort (xs @ ys))) = mset (matched xs) + mset (matched ys)"
  by (simp add: matched_def mset_stable_sort)

lemma merge_rows:
  assumes "flag_conservative t"
    and "\<forall>r\<in>set rows. \<exists>u. flag_conservative u \<and> events_size u = n \<and> r = serialize_array u"
  shows "\<exists>t'. run_operations w t (map Merge rows) = Inr t' \<and>
           flag_conservative t' \<and>
           mset (matched (events_list t')) =
             mset (matched (events_list t)) + (\<Sum>r\<leftarrow>rows. mset (matched (row_events r))) \<and>
           events_size t' = (if rows = [] then events_size t else n) \<and>
           window_size t' = (if rows = [] then window_size t else w)"
  using assms
proof (induction rows arbitrary: t)
  case Nil
  then show ?case by simp
next
  case (Cons r rows)
  obtain u where u: "flag_conservative u" "events_size u = n" "r = serialize_array u"
    using Cons.prems(2) by auto
  let ?t1 = "\<lparr>events_list = stable_sort (events_list t @ events_list u), window_size = w,
               events_size = n, sorted_flag = True\<rparr>"
  have decoded: "deserialize r = Inr (n, sorted_flag u, events_list u)"
    using u(2,3) by (simp add: deserialize_serialize)
  have honest: "sorted_flag u \<longrightarrow> sorted_events (events_list u)"
    using u(1) by (simp add: flag_conservative_def)
  have "r \<noteq> []" using u(3) by (simp add: serialize_array_nonempty)
  from deserialize_and_merge_eq [OF this decoded Cons.prems(1) honest]
  have step: "deserialize_and_merge w t r = Inr ?t1" .
  have cons1: "flag_conservative ?t1"
    by (simp add: flag_conservative_def sorted_stable_sort)
  have rest: "\<forall>r\<in>set rows. \<exists>u. flag_conservative u \<and> events_size u = n \<and> r = serialize_array u"
    using Cons.prems(2) by simp
  from Cons.IH [OF cons1 rest] obtain t' where t':
    "run_operations w ?t1 (map Merge rows) = Inr t'"
    "flag_conservative t'"
    "mset (matched (events_list t')) =
       mset (matched (events_list ?t1)) + (\<Sum>r\<leftarrow>rows. mset (matched (row_events r)))"
    "events_size t' = (if rows = [] then events_size ?t1 else n)"
    "window_size t' = (if rows = [] then window_size ?t1 else w)"
    by blast
  have "run_operations w t (map Merge (r # rows)) = Inr t'"
    using step t'(1) by simp
  moreover have "mset (matched (events_list t')) =
      mset (matched (events_list t)) + (\<Sum>r\<leftarrow>r # rows. mset (matched (row_events r)))"
    using t'(3) u(3) by (simp add: mset_matched_stable_sort row_events_serialize)
  moreover have "events_size t' = n" "window_size t' = w"
    using t'(4,5) by simp_all
  ultimately show ?case using t'(2) by simp
qed

lemma sum_list_rows_mset:
  fixes g :: "DatumArray \<Rightarrow> TimestampEvent multiset"
  assumes "mset rows = mset rows'"
  shows "(\<Sum>r\<leftarrow>rows. g r) = (\<Sum>r\<leftarrow>rows'. g r)"
proof -
  have "(\<Sum>r\<leftarrow>rows. g r) = sum_mset (image_mset g (mset rows))"
    by (metis mset_map sum_mset_sum_list)
  also have "\<dots> = sum_mset (image_mset g (mset rows'))" using assms by simp
  also have "\<dots> = (\<Sum>r\<leftarrow>rows'. g r)" by (metis mset_map sum_mset_sum_list)
  finally show ?thesis .
qed

lemma matched_row_of_partial_log:
  assumes "events_list s0 = []"
  shows "(\<Sum>r\<leftarrow>serialize_to_array_column (update_all p s0) []. mset (matched (row_events r)))
           = mset (matched p)"
proof (cases "events_list (update_all p s0) = []")
  case True
  then have "p = []" by (rule update_all_empty)
  then show ?thesis using True by (simp add: serialize_to_array_column_def matched_def)
next
  case False
  have "matched (events_list s0) = []" using assms by (simp add: matched_def)
  then have "matched (events_list (update_all p s0)) = matched p"
    by (simp add: matched_update_all)
  then show ?thesis
    using False by (simp add: serialize_to_array_column_def row_events_serialize)
qed

lemma matched_rows_of_parts:
  assumes "events_list s0 = []"
  shows "(\<Sum>r\<leftarrow>concat (map (\<lambda>p. serialize_to_array_column (update_all p s0) []) parts).
            mset (matched (row_events r)))
           = mset (matched (concat parts))"
proof (induction parts)
  case Nil
  then show ?case by (simp add: matched_def)
next
  case (Cons p parts)
  then show ?case
    by (simp add: matched_row_of_partial_log [OF assms] matched_append)
qed

section \<open>The claims\<close>

subsection \<open>Merging partial logs\<close>

text \<open>
  Claim C1. Fix the step count and the window size (those of the fresh log \<open>s0\<close>), and split
  the observations \<open>obs\<close>, as a multiset, into the lists \<open>first_part\<close> and \<open>parts\<close>. Feed
  each list to its own log with \<open>update\<close>, serialize the logs of \<open>parts\<close>, and merge the rows
  in any order (\<open>rows\<close> is any permutation of the serialized rows) into the log of
  \<open>first_part\<close>, which is the fresh log when \<open>first_part\<close> is empty. Every merge succeeds,
  and \<open>get_event_level\<close> of the merged log equals \<open>get_event_level\<close> of the single log that
  received every observation directly, in whatever order \<open>obs\<close> lists them.
\<close>

theorem partial_merge_equals_direct:
  assumes fresh: "events_list s0 = []" "window_size s0 = ctx_window"
    and partition: "mset (first_part @ concat parts) = mset obs"
    and rows: "mset rows =
      mset (concat (map (\<lambda>p. serialize_to_array_column (update_all p s0) []) parts))"
  shows "\<exists>s. run_operations ctx_window (update_all first_part s0) (map Merge rows) = Inr s \<and>
             get_event_level s = get_event_level (update_all obs s0)"
proof -
  let ?ser = "\<lambda>p. serialize_to_array_column (update_all p s0) []"
  let ?t = "update_all first_part s0"
  let ?d = "update_all obs s0"
  have cons0: "flag_conservative s0"
    using fresh(1) by (simp add: flag_conservative_def)
  have none0: "matched (events_list s0) = []"
    using fresh(1) by (simp add: matched_def)
  have cons_t: "flag_conservative ?t" and cons_d: "flag_conservative ?d"
    using cons0 by (simp_all add: update_all_conservative)
  have good: "\<forall>r\<in>set rows. \<exists>u. flag_conservative u \<and> events_size u = events_size s0 \<and>
      r = serialize_array u"
  proof
    fix r assume "r \<in> set rows"
    then have "r \<in> set (concat (map ?ser parts))"
      using rows by (metis set_mset_mset)
    then obtain p where "r \<in> set (?ser p)" by auto
    then have "r = serialize_array (update_all p s0)"
      by (simp add: serialize_to_array_column_def split: if_splits)
    moreover have "flag_conservative (update_all p s0)"
      using cons0 by (rule update_all_conservative)
    moreover have "events_size (update_all p s0) = events_size s0"
      by (rule update_all_fields)
    ultimately show "\<exists>u. flag_conservative u \<and> events_size u = events_size s0 \<and>
        r = serialize_array u"
      by blast
  qed
  from merge_rows [OF cons_t good, of ctx_window] obtain s where s:
    "run_operations ctx_window ?t (map Merge rows) = Inr s"
    "flag_conservative s"
    "mset (matched (events_list s)) =
       mset (matched (events_list ?t)) + (\<Sum>r\<leftarrow>rows. mset (matched (row_events r)))"
    "events_size s = (if rows = [] then events_size ?t else events_size s0)"
    "window_size s = (if rows = [] then window_size ?t else ctx_window)"
    by blast
  have size: "events_size s = events_size ?d"
    using s(4) by (simp add: update_all_fields)
  have window: "window_size s = window_size ?d"
    using s(5) fresh(2) by (simp add: update_all_fields)
  have "(\<Sum>r\<leftarrow>rows. mset (matched (row_events r))) =
        (\<Sum>r\<leftarrow>concat (map ?ser parts). mset (matched (row_events r)))"
    using rows by (rule sum_list_rows_mset)
  also have "\<dots> = mset (matched (concat parts))"
    using fresh(1) by (rule matched_rows_of_parts)
  finally have "mset (matched (events_list s)) =
      mset (matched first_part) + mset (matched (concat parts))"
    using s(3) none0 by (simp add: matched_update_all)
  also have "\<dots> = mset (matched (first_part @ concat parts))"
    by (simp add: matched_append)
  also have "\<dots> = mset (matched obs)"
    using partition by (simp only: matched_def mset_filter)
  also have "\<dots> = mset (matched (events_list ?d))"
    using none0 by (simp add: matched_update_all)
  finally have "get_event_level s = get_event_level ?d"
    using s(2) cons_d size window by (intro get_event_level_cong)
  with s(1) show ?thesis by blast
qed

text \<open>
  Claim C1 at four observations split into an unsorted partial log, an empty one (which
  contributes no row) and one that starts with a placeholder; the rows are merged in the
  reverse order into a fresh log.
\<close>

theorem partial_merge_equals_direct_witness:
  "\<exists>s. run_operations 3600
          \<lparr>events_list = [], window_size = 3600, events_size = 3, sorted_flag = True\<rparr>
          (map Merge [[3, 1, 5, 0, 2000, 3], [3, 0, 1000, 2, 0, 1]]) = Inr s \<and>
        get_event_level s =
          get_event_level (update_all [(0, 1), (5, 0), (1000, 2), (2000, 3)]
            \<lparr>events_list = [], window_size = 3600, events_size = 3, sorted_flag = True\<rparr>)"
proof -
  let ?init = "\<lparr>events_list = [], window_size = 3600, events_size = 3, sorted_flag = True\<rparr>"
  let ?parts = "[[(1000, 2), (0, 1)], [], [(5, 0), (2000, 3)]] :: TimestampEvent list list"
  have fresh: "events_list ?init = []" "window_size ?init = 3600"
    by simp_all
  have partition: "mset ([] @ concat ?parts) = mset [(0, 1), (5, 0), (1000, 2), (2000, 3)]"
    by simp
  have ser: "concat (map (\<lambda>p. serialize_to_array_column (update_all p ?init) []) ?parts)
               = [[3, 0, 1000, 2, 0, 1], [3, 1, 5, 0, 2000, 3]]"
    by code_simp
  have rows: "mset [[3, 1, 5, 0, 2000, 3], [3, 0, 1000, 2, 0, 1]] =
      mset (concat (map (\<lambda>p. serialize_to_array_column (update_all p ?init) []) ?parts))"
    unfolding ser by simp
  from partial_merge_equals_direct [OF fresh partition rows]
  show ?thesis by (simp add: update_all_Nil)
qed

subsection \<open>The start of a chain is carried forward\<close>

text \<open>
  Claim C2. When an observation of step \<open>l\<close> with \<open>event_idx = l - 1\<close> not 0 extends a chain
  short of the last step, the iteration stores \<open>events_timestamp[event_idx - 1]\<close>, the start of
  the chain, in entry \<open>event_idx\<close>, not the observation's own timestamp. Hence after the
  first loop every entry is still \<open>-1\<close> or the timestamp of a step-1 observation of the log,
  and each window check is made against such a start. With three steps and a window of 3600,
  the observations \<open>(0, 1), (1000, 2), (5000, 3)\<close> evaluate to 2.
\<close>

theorem chain_start_propagated:
  "(l \<noteq> 0 \<and> l - 1 \<noteq> 0 \<and> unat (l - 1) < length ts \<and>
    0 \<le> sint (ts ! (unat (l - 1) - 1)) \<and>
    sint t \<le> sint (ts ! (unat (l - 1) - 1) + w) \<and>
    unat (l - 1) + 1 \<noteq> unat es \<longrightarrow>
      process_event w es ts (t, l) = Inr (Inr (ts[unat (l - 1) := ts ! (unat (l - 1) - 1)]))) \<and>
   (event_loop w es evs (replicate n (- 1)) = Inr (Inr ts') \<longrightarrow>
      (\<forall>i<length ts'. ts' ! i = - 1 \<or> (ts' ! i, 1) \<in> set evs)) \<and>
   get_event_level
     \<lparr>events_list = [(0, 1), (1000, 2), (5000, 3)], window_size = 3600, events_size = 3,
        sorted_flag = True\<rparr> = Inr 2"
proof (intro conjI impI)
  assume "l \<noteq> 0 \<and> l - 1 \<noteq> 0 \<and> unat (l - 1) < length ts \<and>
    0 \<le> sint (ts ! (unat (l - 1) - 1)) \<and>
    sint t \<le> sint (ts ! (unat (l - 1) - 1) + w) \<and>
    unat (l - 1) + 1 \<noteq> unat es"
  then show "process_event w es ts (t, l) =
      Inr (Inr (ts[unat (l - 1) := ts ! (unat (l - 1) - 1)]))"
    by (simp add: process_event_later less_imp_diff_less)
next
  assume loop: "event_loop w es evs (replicate n (- 1)) = Inr (Inr ts')"
  have "\<forall>i<length (replicate n (- 1 :: i64)). replicate n (- 1 :: i64) ! i = - 1 \<or>
          (replicate n (- 1 :: i64) ! i, 1 :: u8) \<in> {}"
    by simp
  from event_loop_reached [OF loop this]
  show "\<forall>i<length ts'. ts' ! i = - 1 \<or> (ts' ! i, 1) \<in> set evs" by simp
next
  show "get_event_level
     \<lparr>events_list = [(0, 1), (1000, 2), (5000, 3)], window_size = 3600, events_size = 3,
        sorted_flag = True\<rparr> = Inr 2"
    by code_simp
qed

text \<open>
  Claim C2 in its scenario: the observation \<open>(1000, 2)\<close> copies the start 0 into entry 1, and
  the array after the loop is \<open>[0, 0, -1]\<close>.
\<close>

theorem chain_start_propagated_witness:
  "process_event 3600 3 [0, - 1, - 1] (1000, 2) = Inr (Inr [0, 0, - 1]) \<and>
   event_loop 3600 3 [(0, 1), (1000, 2), (5000, 3)] (replicate 3 (- 1)) = Inr (Inr [0, 0, - 1]) \<and>
   ([0, 0, - 1 :: i64] ! 1, 1 :: u8) \<in> set [(0, 1), (1000, 2), (5000, 3)]"
proof -
  note inst = chain_start_propagated [of 2 "[0, - 1, - 1]" 1000 3600 3
      "[(0, 1), (1000, 2), (5000, 3)]" 3 "[0, 0, - 1]"]
  have pre: "(2 :: u8) \<noteq> 0 \<and> (2 :: u8) - 1 \<noteq> 0 \<and> unat ((2 :: u8) - 1) < length [0, - 1, - 1 :: i64] \<and>
      0 \<le> sint ([0, - 1, - 1 :: i64] ! (unat ((2 :: u8) - 1) - 1)) \<and>
      sint (1000 :: i64) \<le> sint ([0, - 1, - 1 :: i64] ! (unat ((2 :: u8) - 1) - 1) + 3600) \<and>
      unat ((2 :: u8) - 1) + 1 \<noteq> unat (3 :: u8)"
    by simp
  with inst have "process_event 3600 3 [0, - 1, - 1] (1000, 2) =
      Inr (Inr ([0, - 1, - 1][unat ((2 :: u8) - 1) := [0, - 1, - 1] ! (unat ((2 :: u8) - 1) - 1)]))"
    by blast
  then have first: "process_event 3600 3 [0, - 1, - 1] (1000, 2) = Inr (Inr [0, 0, - 1])"
    by simp
  have loop: "event_loop 3600 3 [(0, 1), (1000, 2), (5000, 3)] (replicate 3 (- 1))
                = Inr (Inr [0, 0, - 1])"
    by code_simp
  with inst have "\<forall>i<length [0, 0, - 1 :: i64]. [0, 0, - 1 :: i64] ! i = - 1 \<or>
      ([0, 0, - 1 :: i64] ! i, 1 :: u8) \<in> set [(0, 1), (1000, 2), (5000, 3)]"
    by blast
  then have "[0, 0, - 1 :: i64] ! 1 = - 1 \<or>
      ([0, 0, - 1 :: i64] ! 1, 1 :: u8) \<in> set [(0, 1), (1000, 2), (5000, 3)]"
    by simp
  then have third: "([0, 0, - 1 :: i64] ! 1, 1 :: u8) \<in> set [(0, 1), (1000, 2), (5000, 3)]"
    by simp
  from first loop third show ?thesis by (intro conjI)
qed

subsection \<open>Rows with an unpaired trailing element\<close>

text \<open>
  Claim C3, as stated, fails: the row \<open>[3, 1, 7, 2, 9]\<close> has a tail of odd length 3 after its
  two header scalars, and \<open>deserialize_and_merge\<close> returns a merged state holding the one
  complete pair. The function has no failure path for the shape of a row.
\<close>

theorem odd_tail_counterexample:
  "deserialize_and_merge 3600
     \<lparr>events_list = [], window_size = 3600, events_size = 3, sorted_flag = True\<rparr>
     [3, 1, 7, 2, 9]
   = Inr \<lparr>events_list = [(7, 2)], window_size = 3600, events_size = 3, sorted_flag = True\<rparr>"
  by code_simp

text \<open>
  Claim C3, amended. For a row whose tail after the two header scalars has odd length,
  \<open>deserialize_and_merge\<close> returns a merged state, the same one as for the row without its
  last element: the unpaired trailing element is ignored.
\<close>

theorem odd_tail_dropped:
  assumes "3 \<le> length datum_array" "odd (length datum_array - 2)"
  shows "(\<exists>s'. deserialize_and_merge ctx_window s datum_array = Inr s') \<and>
         deserialize_and_merge ctx_window s datum_array =
           deserialize_and_merge ctx_window s (butlast datum_array)"
proof -
  obtain xs x where arr: "datum_array = xs @ [x]"
    using assms(1) by (cases datum_array rule: rev_cases) auto
  have len: "2 \<le> length xs" and ev: "even (length xs - 2)"
    using assms by (simp_all add: arr)
  have "pairs_of (drop 2 (xs @ [x])) = pairs_of (drop 2 xs)"
    using len ev by (simp add: pairs_of_odd)
  moreover have "(xs @ [x]) ! 0 = xs ! 0" "(xs @ [x]) ! 1 = xs ! 1"
    using len by (auto simp: nth_append)
  ultimately have same: "deserialize (butlast datum_array) = deserialize datum_array"
    using len by (auto simp: deserialize_def arr other_list_loop_pairs_of simp del: other_list_loop.simps)
  obtain r where r: "deserialize datum_array = Inr r"
    using assms(1) by (simp add: deserialize_def)
  have nonempty: "length datum_array \<noteq> 0" "length (butlast datum_array) \<noteq> 0"
    using len by (auto simp: arr)
  show ?thesis
    unfolding deserialize_and_merge_def same r
    by (simp only: nonempty if_False sum.case Let_def split: prod.split) simp
qed

text \<open>
  The amended claim C3 at the row \<open>[3, 1, 7, 2, 9]\<close>.
\<close>

theorem odd_tail_dropped_witness:
  "(\<exists>s'. deserialize_and_merge 3600
      \<lparr>events_list = [(8, 1)], window_size = 3600, events_size = 3, sorted_flag = True\<rparr>
      [3, 1, 7, 2, 9] = Inr s') \<and>
   deserialize_and_merge 3600
      \<lparr>events_list = [(8, 1)], window_size = 3600, events_size = 3, sorted_flag = True\<rparr>
      [3, 1, 7, 2, 9]
   = deserialize_and_merge 3600
      \<lparr>events_list = [(8, 1)], window_size = 3600, events_size = 3, sorted_flag = True\<rparr>
      (butlast [3, 1, 7, 2, 9])"
proof -
  have long: "3 \<le> length [3, 1, 7, 2, 9 :: i64]"
    and odd_tail: "odd (length [3, 1, 7, 2, 9 :: i64] - 2)"
    by simp_all
  show ?thesis by (rule odd_tail_dropped [OF long odd_tail])
qed

subsection \<open>Round trip of the encoding\<close>

text \<open>
  Claim C4. A state that holds an observation appends exactly one row to the column, and
  decoding that row gives back its step count, its flag and its observation sequence. A state
  without observations appends no row, and merging the empty row returns the local state as
  it is.
\<close>

theorem serialize_deserialize_roundtrip:
  "(events_list s \<noteq> [] \<longrightarrow>
      serialize_to_array_column s array_column = array_column @ [serialize_array s] \<and>
      deserialize (serialize_array s) = Inr (events_size s, sorted_flag s, events_list s)) \<and>
   (events_list s = [] \<longrightarrow> serialize_to_array_column s array_column = array_column) \<and>
   deserialize_and_merge ctx_window s' [] = Inr s'"
  by (simp add: serialize_to_array_column_def deserialize_serialize deserialize_and_merge_def)

text \<open>
  Claim C4 at an unsorted log of two observations (one with a negative timestamp) and at an
  empty log.
\<close>

theorem serialize_deserialize_roundtrip_witness:
  "serialize_to_array_column
     \<lparr>events_list = [(1000, 2), (- 5, 1)], window_size = 3600, events_size = 3, sorted_flag = False\<rparr> []
     = [[3, 0, 1000, 2, - 5, 1]] \<and>
   deserialize [3, 0, 1000, 2, - 5, 1] = Inr (3, False, [(1000, 2), (- 5, 1)]) \<and>
   serialize_to_array_column
     \<lparr>events_list = [], window_size = 3600, events_size = 3, sorted_flag = True\<rparr> [] = []"
  using serialize_deserialize_roundtrip [of
      "\<lparr>events_list = [(1000, 2), (- 5, 1)], window_size = 3600, events_size = 3, sorted_flag = False\<rparr>"
      "[]"]
    serialize_deserialize_roundtrip [of
      "\<lparr>events_list = [], window_size = 3600, events_size = 3, sorted_flag = True\<rparr>" "[]"]
  by (simp add: serialize_array_def)

subsection \<open>The merged sequence\<close>

text \<open>
  Claim C5. Let the local log and the decoded remote log be honestly flagged (a set flag goes
  with sorted observations). Then \<open>deserialize_and_merge\<close> returns a state whose observation
  sequence is a permutation of the local observations followed by the remote ones and is
  non-decreasing in the order on (timestamp, step index), and whose flag is set. When at
  least one side was flagged sorted, the sequence is the stable merge of the two runs, each
  stable-sorted first if and only if its flag was clear, and observations that compare equal
  keep their relative order: those of the local run first, each run in its own order.
\<close>

theorem merge_sorted_permutation:
  assumes decoded: "deserialize datum_array = Inr (n, other_sorted, other_list)"
    and local_flag: "sorted_flag s \<longrightarrow> sorted_events (events_list s)"
    and remote_flag: "other_sorted \<longrightarrow> sorted_events other_list"
  shows "\<exists>s'. deserialize_and_merge ctx_window s datum_array = Inr s' \<and>
           mset (events_list s') = mset (events_list s @ other_list) \<and>
           sorted_events (events_list s') \<and>
           sorted_flag s' \<and>
           (sorted_flag s \<or> other_sorted \<longrightarrow>
              events_list s' =
                inplace_merge
                  (if \<not> sorted_flag s then stable_sort (events_list s) else events_list s)
                  (if \<not> other_sorted then stable_sort other_list else other_list) \<and>
              (\<forall>k. filter (\<lambda>e. event_key e = k) (events_list s') =
                     filter (\<lambda>e. event_key e = k) (events_list s) @
                     filter (\<lambda>e. event_key e = k) other_list))"
proof -
  let ?run1 = "if \<not> sorted_flag s then stable_sort (events_list s) else events_list s"
  let ?run2 = "if \<not> other_sorted then stable_sort other_list else other_list"
  have nonempty: "datum_array \<noteq> []"
    using decoded by (auto simp: deserialize_def)
  have cons: "flag_conservative s"
    using local_flag by (simp add: flag_conservative_def)
  have run1: "sorted_events ?run1" using local_flag by (simp add: sorted_stable_sort)
  have run2: "sorted_events ?run2" using remote_flag by (simp add: sorted_stable_sort)
  have merged: "inplace_merge ?run1 ?run2 = stable_sort (events_list s @ other_list)"
    using local_flag remote_flag by (rule merged_runs_eq_sort)
  have stable: "filter (\<lambda>e. event_key e = k) (inplace_merge ?run1 ?run2) =
      filter (\<lambda>e. event_key e = k) (events_list s) @ filter (\<lambda>e. event_key e = k) other_list"
    for k
    unfolding inplace_merge_stable [OF run1 run2] by (simp add: stable_sort_stable)
  let ?s' = "\<lparr>events_list = stable_sort (events_list s @ other_list), window_size = ctx_window,
               events_size = n, sorted_flag = True\<rparr>"
  have result: "deserialize_and_merge ctx_window s datum_array = Inr ?s'"
    using nonempty decoded cons remote_flag by (rule deserialize_and_merge_eq)
  have "mset (events_list ?s') = mset (events_list s @ other_list)"
    by (simp add: mset_stable_sort)
  moreover have "sorted_events (events_list ?s')" by (simp add: sorted_stable_sort)
  moreover have "events_list ?s' = inplace_merge ?run1 ?run2" by (simp add: merged)
  moreover have "\<forall>k. filter (\<lambda>e. event_key e = k) (events_list ?s') =
      filter (\<lambda>e. event_key e = k) (events_list s) @ filter (\<lambda>e. event_key e = k) other_list"
    using stable by (simp add: merged [symmetric])
  moreover have "sorted_flag ?s'" by simp
  ultimately show ?thesis using result by blast
qed

text \<open>
  Claim C5 at an unsorted local log and a sorted remote row that share the observation
  \<open>(2, 2)\<close>.
\<close>

theorem merge_sorted_permutation_witness:
  "\<exists>s'. deserialize_and_merge 3600
           \<lparr>events_list = [(5, 1), (2, 2)], window_size = 3600, events_size = 3,
              sorted_flag = False\<rparr> [3, 1, 2, 2, 7, 1] = Inr s' \<and>
         mset (events_list s') = mset ([(5, 1), (2, 2)] @ [(2, 2), (7, 1)]) \<and>
         sorted_events (events_list s') \<and> sorted_flag s' \<and>
         events_list s' = inplace_merge (stable_sort [(5, 1), (2, 2)]) [(2, 2), (7, 1)]"
proof -
  let ?s = "\<lparr>events_list = [(5, 1), (2, 2)], window_size = 3600, events_size = 3,
              sorted_flag = False\<rparr>"
  have decoded: "deserialize [3, 1, 2, 2, 7, 1] = Inr (3, True, [(2, 2), (7, 1)])"
    by code_simp
  have local_flag: "sorted_flag ?s \<longrightarrow> sorted_events (events_list ?s)"
    by simp
  have remote_flag: "True \<longrightarrow> sorted_events [(2, 2), (7, 1)]"
    by code_simp
  have fields: "events_list ?s = [(5, 1), (2, 2)]" "sorted_flag ?s = False" by simp_all
  from merge_sorted_permutation [OF decoded local_flag remote_flag, of 3600]
  show ?thesis unfolding fields by (simp only: simp_thms if_True if_False) blast
qed

subsection \<open>Return at the completed funnel\<close>

text \<open>
  Claim C6. Let the scanned sequence (the observations, sorted first when the flag is clear) be
  \<open>pre @ (t, l) # rest\<close>, let the first loop run through \<open>pre\<close> without returning, leaving
  the array \<open>ts\<close>, and let \<open>(t, l)\<close> pass the window check at the last step:
  \<open>event_idx = l - 1\<close> is not 0, \<open>event_idx + 1 = events_size\<close>, the entry
  \<open>ts[event_idx - 1]\<close> is set and \<open>t\<close> is at most that entry plus the window size. Then
  \<open>get_event_level\<close> returns \<open>events_size\<close>, whatever \<open>rest\<close> is, and returns the same for
  the log cut off after \<open>(t, l)\<close>.
\<close>

theorem funnel_completed_short_circuit:
  assumes scanned:
      "events_list (if \<not> sorted_flag s then sort_events s else s) = pre @ (t, l) # rest"
    and prefix: "event_loop (window_size s) (events_size s) pre
                   (replicate (unat (events_size s)) (- 1)) = Inr (Inr ts)"
    and last_step: "l \<noteq> 0" "l - 1 \<noteq> 0" "unat (l - 1) + 1 = unat (events_size s)"
    and reached: "0 \<le> sint (ts ! (unat (l - 1) - 1))"
    and in_window: "sint t \<le> sint (ts ! (unat (l - 1) - 1) + window_size s)"
  shows "get_event_level s = Inr (ucast (events_size s)) \<and>
         get_event_level (s\<lparr>events_list := pre @ [(t, l)]\<rparr>) = Inr (ucast (events_size s))"
proof -
  have len: "length ts = unat (events_size s)"
    using event_loop_length [OF prefix] by simp
  have step: "process_event (window_size s) (events_size s) ts (t, l)
                = Inr (Inl (ucast (events_size s)))"
    using last_step len reached in_window by (rule process_event_complete)
  have loop: "event_loop (window_size s) (events_size s) (pre @ (t, l) # more)
                (replicate (unat (events_size s)) (- 1)) = Inr (Inl (ucast (events_size s)))"
    for more
    by (simp add: event_loop_append prefix step)
  have fields: "events_size (if \<not> sorted_flag s then sort_events s else s) = events_size s"
    "window_size (if \<not> sorted_flag s then sort_events s else s) = window_size s"
    by (simp_all add: sort_events_def)
  have full: "get_event_level s = Inr (ucast (events_size s))"
    unfolding get_event_level_def Let_def fields scanned loop by simp
  let ?s = "s\<lparr>events_list := pre @ [(t, l)]\<rparr>"
  have "sorted_events (pre @ [(t, l)])" if "\<not> sorted_flag s"
  proof -
    have "sorted_events (events_list (sort_events s))"
      by (simp add: sort_events_def sorted_stable_sort)
    then have "sorted_events ((pre @ [(t, l)]) @ rest)" using scanned that by simp
    then show ?thesis by (rule sorted_events_prefix)
  qed
  then have "events_list (if \<not> sorted_flag ?s then sort_events ?s else ?s) = pre @ [(t, l)]"
    by (simp add: sort_events_def stable_sort_id)
  moreover have "events_size (if \<not> sorted_flag ?s then sort_events ?s else ?s) = events_size s"
    "window_size (if \<not> sorted_flag ?s then sort_events ?s else ?s) = window_size s"
    by (simp_all add: sort_events_def)
  ultimately have "get_event_level ?s = Inr (ucast (events_size s))"
    unfolding get_event_level_def Let_def by (simp only: loop) simp
  with full show ?thesis by simp
qed

text \<open>
  Claim C6 with three steps and a window of 3600: the chain \<open>(0, 1), (1000, 2), (2000, 3)\<close>
  is complete at the third observation; the result is 3 with and without the observation that
  follows.
\<close>

theorem funnel_completed_short_circuit_witness:
  "get_event_level
     \<lparr>events_list = [(0, 1), (1000, 2), (2000, 3), (2500, 1)], window_size = 3600,
        events_size = 3, sorted_flag = True\<rparr> = Inr 3 \<and>
   get_event_level
     \<lparr>events_list = [(0, 1), (1000, 2), (2000, 3)], window_size = 3600,
        events_size = 3, sorted_flag = True\<rparr> = Inr 3"
proof -
  let ?s = "\<lparr>events_list = [(0, 1), (1000, 2), (2000, 3), (2500, 1)], window_size = 3600,
              events_size = 3, sorted_flag = True\<rparr>"
  have scanned: "events_list (if \<not> sorted_flag ?s then sort_events ?s else ?s)
                   = [(0, 1), (1000, 2)] @ (2000, 3) # [(2500, 1)]"
    by simp
  have prefix: "event_loop (window_size ?s) (events_size ?s) [(0, 1), (1000, 2)]
                  (replicate (unat (events_size ?s)) (- 1)) = Inr (Inr [0, 0, - 1])"
    by code_simp
  have last_step: "(3 :: u8) \<noteq> 0" "(3 :: u8) - 1 \<noteq> 0" "unat ((3 :: u8) - 1) + 1 = unat (events_size ?s)"
    by simp_all
  have reached: "0 \<le> sint ([0, 0, - 1 :: i64] ! (unat ((3 :: u8) - 1) - 1))"
    by simp
  have in_window: "sint (2000 :: i64) \<le> sint ([0, 0, - 1 :: i64] ! (unat ((3 :: u8) - 1) - 1) + window_size ?s)"
    by simp
  from funnel_completed_short_circuit [OF scanned prefix last_step reached in_window]
  show ?thesis by simp
qed

subsection \<open>Behaviour of update\<close>

text \<open>
  Claim C7. \<open>update\<close> called with step index 0 on a log that holds an observation
  returns the state as it is. Every other call appends the pair, leaves window size and step
  count alone, and keeps the flag set exactly when it was set and the new pair is not strictly
  below the last appended pair in the order on (timestamp, step index): the flag is cleared
  exactly when it was set, the log was not empty and the new pair is strictly less than the
  last one.
\<close>

theorem update_behaviour:
  "(events_list s \<noteq> [] \<and> l = 0 \<longrightarrow> update t l s = s) \<and>
   (\<not> (events_list s \<noteq> [] \<and> l = 0) \<longrightarrow>
      events_list (update t l s) = events_list s @ [(t, l)] \<and>
      sorted_flag (update t l s) =
        (sorted_flag s \<and>
         \<not> (events_list s \<noteq> [] \<and> event_key (t, l) < event_key (last (events_list s)))) \<and>
      window_size (update t l s) = window_size s \<and>
      events_size (update t l s) = events_size s)"
  by (simp add: update_noop events_list_update sorted_flag_update)

text \<open>
  The scenario of claim C7: a log holding \<open>(0, 1)\<close> is left unchanged by \<open>(5, 0)\<close>; the
  pair \<open>(- 3, 2)\<close> is appended to it and clears the flag.
\<close>

theorem update_behaviour_witness:
  "update 5 0 \<lparr>events_list = [(0, 1)], window_size = 3600, events_size = 3, sorted_flag = True\<rparr>
     = \<lparr>events_list = [(0, 1)], window_size = 3600, events_size = 3, sorted_flag = True\<rparr> \<and>
   events_list (update (- 3) 2
       \<lparr>events_list = [(0, 1)], window_size = 3600, events_size = 3, sorted_flag = True\<rparr>)
     = [(0, 1), (- 3, 2)] \<and>
   \<not> sorted_flag (update (- 3) 2
       \<lparr>events_list = [(0, 1)], window_size = 3600, events_size = 3, sorted_flag = True\<rparr>)"
proof -
  let ?s = "\<lparr>events_list = [(0, 1)], window_size = 3600, events_size = 3, sorted_flag = True\<rparr>"
  have less: "event_key (- 3, 2) < event_key (last (events_list ?s))"
    by (simp add: event_key_def less_prod_def)
  show ?thesis
    using update_behaviour [of ?s 0 5] update_behaviour [of ?s 2 "- 3"] less by simp
qed

subsection \<open>The flag is conservative\<close>

text \<open>
  Claim C8. Start from a log without observations and run any sequence of \<open>update\<close> and
  \<open>deserialize_and_merge\<close> calls whose rows are honestly flagged. In every state reached this
  way, a set flag goes with observations that are non-decreasing in the order on (timestamp,
  step index).
\<close>

theorem sorted_flag_is_conservative:
  assumes "events_list s0 = []"
    and "\<forall>p\<in>set ps. honest_operation p"
    and "run_operations ctx_window s0 ps = Inr s"
    and "sorted_flag s"
  shows "sorted_events (events_list s)"
proof -
  have "flag_conservative s0" using assms(1) by (simp add: flag_conservative_def)
  from run_operations_conservative [OF this assms(2,3)] assms(4)
  show ?thesis by (simp add: flag_conservative_def)
qed

text \<open>
  Claim C8 on a run of two updates out of order, the merge of a row flagged unsorted, and
  one more update.
\<close>

theorem sorted_flag_is_conservative_witness:
  "run_operations 3600
     \<lparr>events_list = [], window_size = 3600, events_size = 3, sorted_flag = True\<rparr>
     [Update 5 1, Update 3 1, Merge [3, 0, 4, 2], Update 9 1]
   = Inr \<lparr>events_list = [(3, 1), (4, 2), (5, 1), (9, 1)], window_size = 3600, events_size = 3,
           sorted_flag = True\<rparr> \<and>
   sorted_events [(3, 1), (4, 2), (5, 1), (9, 1)]"
proof -
  let ?init = "\<lparr>events_list = [], window_size = 3600, events_size = 3, sorted_flag = True\<rparr>"
  let ?ps = "[Update 5 1, Update 3 1, Merge [3, 0, 4, 2], Update 9 1]"
  let ?final = "\<lparr>events_list = [(3, 1), (4, 2), (5, 1), (9, 1)], window_size = 3600,
              events_size = 3, sorted_flag = True\<rparr>"
  have empty: "events_list ?init = []" by simp
  have honest: "\<forall>p\<in>set ?ps. honest_operation p"
    by (simp add: honestly_flagged_def deserialize_def)
  have run: "run_operations 3600 ?init ?ps = Inr ?final" by code_simp
  have flag: "sorted_flag ?final" by simp
  from sorted_flag_is_conservative [OF empty honest run flag] run show ?thesis by simp
qed

subsection \<open>Chains that start at a negative timestamp\<close>

text \<open>
  Claim C9. The array of reached timestamps starts at \<open>-1\<close> and an entry counts as set when
  it is \<open>>= 0\<close>. Take a log with an honest flag and at least one step. Then the observations
  of step 1 with a negative timestamp contribute nothing: \<open>get_event_level\<close> returns the
  same value for the log without them, and it returns 0 for a log that holds nothing else.
  Such an observation still overwrites the chain start: its iteration stores the negative
  timestamp in entry 0.
\<close>

theorem negative_start_not_counted:
  assumes honest: "sorted_flag s \<longrightarrow> sorted_events (events_list s)"
    and steps: "0 < unat (events_size s)"
  shows "get_event_level s =
           get_event_level (s\<lparr>events_list := filter (\<lambda>e. \<not> negative_start e) (events_list s)\<rparr>) \<and>
         ((\<forall>e\<in>set (events_list s). negative_start e) \<longrightarrow> get_event_level s = Inr 0) \<and>
         (\<forall>e ts. negative_start e \<and> 0 < length ts \<longrightarrow>
            process_event (window_size s) (events_size s) ts e = Inr (Inr (ts[0 := fst e])))"
proof -
  let ?keep = "\<lambda>e. \<not> negative_start e"
  let ?xs = "if \<not> sorted_flag s then stable_sort (events_list s) else events_list s"
  let ?ts = "replicate (unat (events_size s)) (- 1 :: i64)"
  let ?s' = "s\<lparr>events_list := filter ?keep (events_list s)\<rparr>"
  have sorted_xs: "sorted_events ?xs" using honest by (simp add: sorted_stable_sort)
  have scanned:
    "(if \<not> sorted_flag ?s' then stable_sort (events_list ?s') else events_list ?s')
       = filter ?keep ?xs"
    by (simp add: filter_stable_sort)
  have pos: "0 < length ?ts" using steps by simp
  have start: "\<forall>e\<in>set ?xs. sint (fst e) < 0 \<longrightarrow> sint (?ts ! 0) < 0"
    using steps by simp
  have "finish (event_loop (window_size s) (events_size s) ?xs ?ts) =
        finish (event_loop (window_size s) (events_size s) (filter ?keep ?xs) ?ts)"
    using same_reached_refl sorted_xs pos start by (rule event_loop_drop_negative_starts)
  then have removed: "get_event_level s = get_event_level ?s'"
    unfolding get_event_level_finish scanned by simp
  have "get_event_level s = Inr 0" if "\<forall>e\<in>set (events_list s). negative_start e"
  proof -
    have "filter ?keep (events_list s) = []" using that by (simp add: filter_empty_conv)
    then have "get_event_level ?s' = Inr 0" by (simp add: get_event_level_no_events)
    then show ?thesis using removed by simp
  qed
  moreover have "\<forall>e ts. negative_start e \<and> 0 < length ts \<longrightarrow>
      process_event (window_size s) (events_size s) ts e = Inr (Inr (ts[0 := fst e]))"
    by (simp add: process_event_negative_start)
  ultimately show ?thesis using removed by blast
qed

text \<open>
  Claim C9 at the log that holds only \<open>(- 1, 1)\<close>, whose result is 0, and at a log where a
  start at \<open>- 7\<close> is followed by a step-2 observation inside the window.
\<close>

theorem negative_start_not_counted_witness:
  "get_event_level
     \<lparr>events_list = [(- 1, 1)], window_size = 3600, events_size = 3, sorted_flag = True\<rparr> = Inr 0 \<and>
   process_event 3600 3 [- 1, - 1, - 1] (- 1, 1) = Inr (Inr [- 1, - 1, - 1]) \<and>
   get_event_level
     \<lparr>events_list = [(- 7, 1), (- 5, 2), (0, 1), (10, 2)], window_size = 3600, events_size = 3,
        sorted_flag = True\<rparr>
   = get_event_level
     \<lparr>events_list = [(- 5, 2), (0, 1), (10, 2)], window_size = 3600, events_size = 3,
        sorted_flag = True\<rparr>"
proof -
  let ?one = "\<lparr>events_list = [(- 1, 1)], window_size = 3600, events_size = 3, sorted_flag = True\<rparr>"
  let ?four = "\<lparr>events_list = [(- 7, 1), (- 5, 2), (0, 1), (10, 2)], window_size = 3600,
                 events_size = 3, sorted_flag = True\<rparr>"
  have honest_one: "sorted_flag ?one \<longrightarrow> sorted_events (events_list ?one)" by simp
  have honest_four: "sorted_flag ?four \<longrightarrow> sorted_events (events_list ?four)" by code_simp
  have steps_one: "0 < unat (events_size ?one)" and steps_four: "0 < unat (events_size ?four)"
    by simp_all
  have neg: "negative_start (- 1, 1)" "negative_start (- 7, 1)" "\<not> negative_start (- 5, 2)"
    "\<not> negative_start (0, 1)" "\<not> negative_start (10, 2)"
    by (simp_all add: negative_start_def)
  note one = negative_start_not_counted [OF honest_one steps_one]
  note four = negative_start_not_counted [OF honest_four steps_four]
  have "\<forall>e\<in>set (events_list ?one). negative_start e" using neg by simp
  with one have first: "get_event_level ?one = Inr 0" by blast
  have "0 < length [- 1, - 1, - 1 :: i64]" by simp
  with one neg(1) have
    "process_event (window_size ?one) (events_size ?one) [- 1, - 1, - 1] (- 1, 1)
       = Inr (Inr ([- 1, - 1, - 1][0 := fst (- 1 :: i64, 1 :: u8)]))"
    by blast
  then have second: "process_event 3600 3 [- 1, - 1, - 1] (- 1, 1) = Inr (Inr [- 1, - 1, - 1])"
    by simp
  have "filter (\<lambda>e. \<not> negative_start e) (events_list ?four) = [(- 5, 2), (0, 1), (10, 2)]"
    using neg by simp
  with four [THEN conjunct1] have third: "get_event_level ?four =
      get_event_level \<lparr>events_list = [(- 5, 2), (0, 1), (10, 2)], window_size = 3600,
        events_size = 3, sorted_flag = True\<rparr>"
    by simp
  from first second third show ?thesis by (intro conjI)
qed

subsection \<open>Array accesses and range of the result\<close>

text \<open>
  Claim C10. When every step index of the log is at most \<open>events_size\<close>,
  \<open>get_event_level\<close> does not read or write \<open>events_timestamp\<close> out of range (the result is
  not the failure value), and the value returned lies between 0 and \<open>events_size\<close>.
\<close>

theorem get_event_level_in_bounds:
  assumes "\<forall>e\<in>set (events_list s). unat (snd e) \<le> unat (events_size s)"
  shows "\<exists>r. get_event_level s = Inr r \<and> 0 \<le> sint r \<and> sint r \<le> uint (events_size s)"
proof -
  define s' where "s' = (if \<not> sorted_flag s then sort_events s else s)"
  define ts0 :: "i64 list" where "ts0 = replicate (unat (events_size s)) (- 1)"
  have fields: "events_size s' = events_size s" "window_size s' = window_size s"
    and evs: "set (events_list s') = set (events_list s)"
    by (simp_all add: s'_def sort_events_def set_stable_sort)
  have len: "length ts0 = unat (events_size s)" by (simp add: ts0_def)
  have small: "unat (events_size s) \<le> 255" by (rule unat_u8_le)
  have gel: "get_event_level s =
      (case event_loop (window_size s) (events_size s) (events_list s') ts0 of
         Inl err \<Rightarrow> Inl err | Inr (Inl r) \<Rightarrow> Inr r
       | Inr (Inr ts) \<Rightarrow> Inr (last_reached ts (length ts)))"
    unfolding get_event_level_def Let_def s'_def [symmetric] fields ts0_def ..
  from event_loop_in_bounds [OF len, of "events_list s'" "window_size s"] assms evs
  consider "event_loop (window_size s) (events_size s) (events_list s') ts0
              = Inr (Inl (ucast (events_size s)))"
    | ts where "event_loop (window_size s) (events_size s) (events_list s') ts0 = Inr (Inr ts)"
        "length ts = length ts0"
    by auto
  then show ?thesis
  proof cases
    case 1
    have "sint (ucast (events_size s) :: i32) = int (unat (events_size s))"
      using small by (simp only: ucast_u8_i32 sint_of_nat_small)
    then show ?thesis using 1 gel by simp
  next
    case 2
    obtain m where m: "m \<le> length ts" "last_reached ts (length ts) = of_nat m"
      using last_reached_le by blast
    have "m \<le> 255" using m(1) 2(2) len small by simp
    then have "sint (of_nat m :: i32) = int m" by (rule sint_of_nat_small)
    moreover have "int m \<le> uint (events_size s)"
      using m(1) 2(2) len unfolding uint_nat by linarith
    ultimately show ?thesis using 2 gel m by simp
  qed
qed

text \<open>
  Claim C10 at a log of three steps.
\<close>

theorem get_event_level_in_bounds_witness:
  "\<exists>r. get_event_level
        \<lparr>events_list = [(0, 1), (1000, 2), (5000, 3)], window_size = 3600, events_size = 3,
           sorted_flag = True\<rparr> = Inr r \<and> 0 \<le> sint r \<and> sint r \<le> 3"
proof -
  let ?s = "\<lparr>events_list = [(0, 1), (1000, 2), (5000, 3)], window_size = 3600,
              events_size = 3, sorted_flag = True\<rparr>"
  have steps: "\<forall>e\<in>set (events_list ?s). unat (snd e) \<le> unat (events_size ?s)"
    by simp
  from get_event_level_in_bounds [OF steps] show ?thesis by simp
qed

end
